theory Spec2Isabelle
  imports Complex_Main "HOL-Library.Word"
begin

section \<open>JavaScript strings\<close>

text \<open>
  A JavaScript string is a sequence of 16-bit code units. The regular expressions of the
  sources carry no \<open>u\<close> flag, so they too work on code units.
\<close>

type_synonym jsstring = "16 word list"

definition lit :: "string \<Rightarrow> jsstring" where
  "lit s = map of_char s"

text \<open>
  \<open>String.prototype.trim\<close> strips the ECMAScript WhiteSpace and LineTerminator code
  points from both ends: TAB, LF, VT, FF, CR, SP, NBSP, the Unicode space separators
  (U+1680, U+2000 to U+200A, U+202F, U+205F, U+3000), LS, PS and the BOM.
\<close>

definition isWhiteSpace :: "16 word \<Rightarrow> bool" where
  "isWhiteSpace u \<longleftrightarrow>
     u = 0x9 \<or> u = 0xA \<or> u = 0xB \<or> u = 0xC \<or> u = 0xD \<or> u = 0x20 \<or> u = 0xA0 \<or>
     u = 0x1680 \<or> (0x2000 \<le> u \<and> u \<le> 0x200A) \<or> u = 0x2028 \<or> u = 0x2029 \<or>
     u = 0x202F \<or> u = 0x205F \<or> u = 0x3000 \<or> u = 0xFEFF"

definition trim :: "jsstring \<Rightarrow> jsstring" where
  "trim s = rev (dropWhile isWhiteSpace (rev (dropWhile isWhiteSpace s)))"

definition startsWith :: "jsstring \<Rightarrow> jsstring \<Rightarrow> bool" where
  "startsWith s p \<longleftrightarrow> take (length p) s = p"

definition endsWith :: "jsstring \<Rightarrow> jsstring \<Rightarrow> bool" where
  "endsWith s p \<longleftrightarrow> length p \<le> length s \<and> drop (length s - length p) s = p"

text \<open>The class \<open>\w\<close> of a regular expression without flags: \<open>[A-Za-z0-9_]\<close>.\<close>

definition isWordChar :: "16 word \<Rightarrow> bool" where
  "isWordChar u \<longleftrightarrow>
     (0x30 \<le> u \<and> u \<le> 0x39) \<or> (0x41 \<le> u \<and> u \<le> 0x5A) \<or> u = 0x5F \<or>
     (0x61 \<le> u \<and> u \<le> 0x7A)"

text \<open>
  \<open>toLowerCase\<close> is applied by the sources to the capture of \<open>(\w*)\<close> only, a string of
  ASCII letters, digits and underscores, where it maps \<open>A-Z\<close> to \<open>a-z\<close> and nothing else.
\<close>

definition toLowerCase :: "jsstring \<Rightarrow> jsstring" where
  "toLowerCase s = map (\<lambda>u. if 0x41 \<le> u \<and> u \<le> 0x5A then u + 0x20 else u) s"

definition LF :: jsstring where
  "LF = [0xA]"

text \<open>
  Equality of two strings up to the case of ASCII letters: the same length, and at each
  position the same code unit or an upper-case letter and its lower-case form.
\<close>

definition same_letter :: "16 word \<Rightarrow> 16 word \<Rightarrow> bool" where
  "same_letter a b \<longleftrightarrow>
     a = b \<or> (0x41 \<le> a \<and> a \<le> 0x5A \<and> b = a + 0x20) \<or> (0x41 \<le> b \<and> b \<le> 0x5A \<and> a = b + 0x20)"

definition equals_ignoring_case :: "jsstring \<Rightarrow> jsstring \<Rightarrow> bool" where
  "equals_ignoring_case s t \<longleftrightarrow> list_all2 same_letter s t"

text \<open>
  The leftmost occurrence of a pattern: the text before it and the text after it.
\<close>

fun find_first :: "jsstring \<Rightarrow> jsstring \<Rightarrow> (jsstring \<times> jsstring) option" where
  "find_first pat [] = (if pat = [] then Some ([], []) else None)"
| "find_first pat (c # cs) =
     (if take (length pat) (c # cs) = pat then Some ([], drop (length pat) (c # cs))
      else map_option (\<lambda>(p, r). (c # p, r)) (find_first pat cs))"

section \<open>Segmentation of a message (ChatMessage.tsx, FormattedContent)\<close>

definition fence :: jsstring where
  "fence = lit ''```''"

lemma find_first_split:
  "find_first pat s = Some (p, r) \<Longrightarrow> s = p @ pat @ r"
proof (induction s arbitrary: p)
  case Nil
  then show ?case by (simp split: if_splits)
next
  case (Cons c cs)
  show ?case
  proof (cases "take (length pat) (c # cs) = pat")
    case True
    with Cons.prems have "p = []" and "r = drop (length pat) (c # cs)" by auto
    with True show ?thesis by (metis append_Nil append_take_drop_id)
  next
    case False
    with Cons.prems obtain p' where "find_first pat cs = Some (p', r)" and "p = c # p'"
      by (auto split: prod.splits)
    with Cons.IH show ?thesis by simp
  qed
qed

lemma fence_length: "length fence = 3"
  by (simp add: fence_def lit_def)

lemma find_first_fence_shorter:
  "find_first fence s = Some (p, r) \<Longrightarrow> length r < length s"
  using find_first_split [of fence s p r] by (simp add: fence_length)

text \<open>
  \<open>content.split(/(```[\s\S]*?```)/g)\<close>. A match starts at the leftmost fence and, the
  body being lazy, ends with the first fence that begins after the opening one. The
  result alternates the text before a match and the match itself (the capture group),
  and ends with the text after the last match. When the leftmost fence has no closing
  fence, no later position matches either, and the rest of the text is the last part.
\<close>

function split_fences :: "jsstring \<Rightarrow> jsstring list" where
  "split_fences s =
     (case find_first fence s of
        None \<Rightarrow> [s]
      | Some (pre, rest) \<Rightarrow>
          (case find_first fence rest of
             None \<Rightarrow> [s]
           | Some (body, rest') \<Rightarrow> pre # (fence @ body @ fence) # split_fences rest'))"
  by pat_completeness auto
termination
proof (relation "measure length", goal_cases)
  case 1
  show ?case by simp
next
  case (2 s x2 pre rest x2a body rest')
  then have "length rest < length s" and "length rest' < length rest"
    by (auto dest: find_first_fence_shorter)
  then show ?case by simp
qed

declare split_fences.simps [simp del]

text \<open>
  \<open>part.match(/^```(\w*)\n?([\s\S]*?)```$/)\<close>. The part matches when it opens and closes
  with a fence and the two do not overlap. The greedy \<open>(\w*)\<close> takes the longest run of
  word characters (a backquote is none), \<open>\n?\<close> takes a line feed that follows, and the
  lazy body has to reach the fence that ends the part: the first attempt succeeds, so the
  captures are these.
\<close>

definition codeBlockMatch :: "jsstring \<Rightarrow> (jsstring \<times> jsstring) option" where
  "codeBlockMatch part =
     (if startsWith part fence \<and> 6 \<le> length part \<and> endsWith part fence then
        let inner = take (length part - 6) (drop 3 part);
            language = takeWhile isWordChar inner;
            after = dropWhile isWordChar inner;
            code = (case after of [] \<Rightarrow> [] | c # cs \<Rightarrow> if c = 0xA then cs else c # cs)
        in Some (language, code)
      else None)"

datatype element =
    MermaidDiagram jsstring
  | CodeBlock jsstring jsstring
  | ProseDiv jsstring

text \<open>
  The callback of \<open>map\<close>. \<open>marked.parse\<close> (with \<open>gfm\<close> and \<open>breaks\<close>) and
  \<open>DOMPurify.sanitize\<close> are libraries outside the repository: parameters of the model.
\<close>

definition render_part ::
  "(jsstring \<Rightarrow> jsstring) \<Rightarrow> (jsstring \<Rightarrow> jsstring) \<Rightarrow> jsstring \<Rightarrow> element" where
  "render_part marked_parse sanitize part =
     (case codeBlockMatch part of
        Some (language, code) \<Rightarrow>
          if toLowerCase language = lit ''mermaid'' then MermaidDiagram (trim code)
          else CodeBlock language (trim code)
      | None \<Rightarrow> ProseDiv (sanitize (marked_parse (trim part))))"

text \<open>\<open>parts.filter(part => part?.trim())\<close>: the empty string is the only falsy one.\<close>

definition kept_parts :: "jsstring \<Rightarrow> jsstring list" where
  "kept_parts content = filter (\<lambda>part. trim part \<noteq> []) (split_fences content)"

definition FormattedContent ::
  "(jsstring \<Rightarrow> jsstring) \<Rightarrow> (jsstring \<Rightarrow> jsstring) \<Rightarrow> jsstring \<Rightarrow> element list" where
  "FormattedContent marked_parse sanitize content =
     map (render_part marked_parse sanitize) (kept_parts content)"

subsection \<open>Properties of the segmentation\<close>

lemma split_fences_closed:
  assumes "find_first fence s = Some (pre, rest)" and "find_first fence rest = Some (body, rest')"
  shows "split_fences s = pre # (fence @ body @ fence) # split_fences rest'"
  using assms by (simp add: split_fences.simps [of s])

lemma split_fences_open:
  assumes "find_first fence s = Some (pre, rest)" and "find_first fence rest = None"
  shows "split_fences s = [s]"
  using assms by (simp add: split_fences.simps [of s])

lemma split_fences_plain:
  assumes "find_first fence s = None"
  shows "split_fences s = [s]"
  using assms by (simp add: split_fences.simps [of s])

lemma concat_split_fences: "concat (split_fences s) = s"
proof (induction s rule: split_fences.induct)
  case (1 s)
  show ?case
  proof (cases "find_first fence s")
    case None
    then show ?thesis by (simp add: split_fences_plain)
  next
    case (Some a)
    obtain pre rest where a: "a = (pre, rest)" by (cases a)
    show ?thesis
    proof (cases "find_first fence rest")
      case None
      with Some a show ?thesis by (simp add: split_fences_open)
    next
      case inner: (Some b)
      obtain body rest' where b: "b = (body, rest')" by (cases b)
      from Some a have s: "s = pre @ fence @ rest" by (simp add: find_first_split)
      from inner b have r: "rest = body @ fence @ rest'" by (simp add: find_first_split)
      from "1.IH" [OF Some a [symmetric] inner b [symmetric]]
      have ih: "concat (split_fences rest') = rest'" .
      from Some a inner b
      have "split_fences s = pre # (fence @ body @ fence) # split_fences rest'"
        by (simp add: split_fences_closed)
      with ih show ?thesis by (simp add: s r)
    qed
  qed
qed

lemma dropWhile_all_iff: "list_all P (dropWhile P xs) \<longleftrightarrow> list_all P xs"
  by (induction xs) auto

lemma trim_empty_iff: "trim s = [] \<longleftrightarrow> list_all isWhiteSpace s"
proof -
  have "trim s = [] \<longleftrightarrow> list_all isWhiteSpace (dropWhile isWhiteSpace s)"
    by (simp add: trim_def dropWhile_eq_Nil_conv list_all_iff)
  then show ?thesis by (simp add: dropWhile_all_iff)
qed

lemma find_first_at_head: "pat \<noteq> [] \<Longrightarrow> find_first pat (pat @ b) = Some ([], b)"
  by (cases pat) auto

lemma find_first_occurs: "pat \<noteq> [] \<Longrightarrow> find_first pat (a @ pat @ b) \<noteq> None"
  by (induction a) (auto simp: find_first_at_head)

lemma find_first_pre_no_prefix:
  assumes "find_first pat s = Some (p, r)" and "pat \<noteq> []"
  shows "take (length pat) p \<noteq> pat"
proof
  assume t: "take (length pat) p = pat"
  from assms(1) have s: "s = p @ pat @ r" by (rule find_first_split)
  from t assms(2) have "p \<noteq> []" by auto
  from t have "length pat = length (take (length pat) p)" by simp
  then have "length pat \<le> length p" by simp
  with t have "take (length pat) s = pat" unfolding s by simp
  with assms(1) \<open>p \<noteq> []\<close> show False by (cases s) (auto split: if_splits)
qed

lemma codeBlockMatch_fence:
  "codeBlockMatch (fence @ body @ fence) =
     Some (takeWhile isWordChar body,
           (case dropWhile isWordChar body of [] \<Rightarrow> []
            | c # cs \<Rightarrow> if c = 0xA then cs else c # cs))"
  by (simp add: codeBlockMatch_def startsWith_def endsWith_def fence_length Let_def)

lemma codeBlockMatch_no_prefix:
  "take 3 part \<noteq> fence \<Longrightarrow> codeBlockMatch part = None"
  by (simp add: codeBlockMatch_def startsWith_def fence_length)

lemma fence_not_Nil: "fence \<noteq> []"
  using fence_length by auto

lemma codeBlockMatch_pre:
  assumes "find_first fence s = Some (pre, rest)"
  shows "codeBlockMatch pre = None"
  using find_first_pre_no_prefix [OF assms fence_not_Nil]
  by (simp add: codeBlockMatch_no_prefix fence_length)

lemma codeBlockMatch_plain:
  assumes "find_first fence s = None"
  shows "codeBlockMatch s = None"
proof (rule ccontr)
  assume "codeBlockMatch s \<noteq> None"
  then have "startsWith s fence" by (auto simp: codeBlockMatch_def split: if_splits)
  then have "s = [] @ fence @ drop 3 s"
    by (metis append_Nil append_take_drop_id startsWith_def fence_length)
  with find_first_occurs [OF fence_not_Nil, of "[]" "drop 3 s"] assms show False by simp
qed

lemma codeBlockMatch_open:
  assumes "find_first fence s = Some (pre, rest)" and "find_first fence rest = None"
  shows "codeBlockMatch s = None"
proof (rule ccontr)
  assume "codeBlockMatch s \<noteq> None"
  then have st: "startsWith s fence" and len: "6 \<le> length s" and en: "endsWith s fence"
    by (auto simp: codeBlockMatch_def split: if_splits)
  from st have "take (length fence) s = fence" by (simp add: startsWith_def)
  with assms(1) len have "pre = []" and rest: "rest = drop 3 s"
    by (cases s; auto simp: fence_length)+
  from en have "drop (length s - 3) s = fence" by (simp add: endsWith_def fence_length)
  with len have "drop (length s - 6) rest = fence" by (simp add: rest)
  then have "rest = take (length s - 6) rest @ fence @ []"
    by (metis append_Nil2 append_take_drop_id)
  with find_first_occurs [OF fence_not_Nil, of "take (length s - 6) rest" "[]"] assms(2)
  show False by simp
qed

lemma fence_not_blank: "\<not> list_all isWhiteSpace (a @ fence @ b)"
  by (simp add: fence_def lit_def isWhiteSpace_def)

text \<open>
  Claim C1. The parts that \<open>split\<close> produces, concatenated in order, are the message
  text: nothing is lost, duplicated or reordered. The segments that are rendered come,
  one each and in order, from the parts that \<open>filter\<close> keeps, and \<open>filter\<close> drops
  exactly the parts made of white space only (the empty part among them).
\<close>

theorem segmentation_round_trip:
  "concat (split_fences content) = content \<and>
   kept_parts content = filter (\<lambda>part. \<not> list_all isWhiteSpace part) (split_fences content) \<and>
   length (FormattedContent marked_parse sanitize content) = length (kept_parts content)"
  by (simp add: concat_split_fences kept_parts_def trim_empty_iff FormattedContent_def)

lemma toLowerCase_eq_iff:
  "list_all (\<lambda>b. \<not> (0x41 \<le> b \<and> b \<le> 0x5A)) t \<Longrightarrow>
   (toLowerCase s = t) = equals_ignoring_case s t"
proof (induction s arbitrary: t)
  case Nil
  show ?case by (auto simp: toLowerCase_def equals_ignoring_case_def)
next
  case (Cons a s)
  show ?case
  proof (cases t)
    case Nil
    then show ?thesis by (simp add: toLowerCase_def equals_ignoring_case_def)
  next
    case (Cons b t')
    with Cons.prems have low: "\<not> (0x41 \<le> b \<and> b \<le> 0x5A)"
      and rest: "list_all (\<lambda>b. \<not> (0x41 \<le> b \<and> b \<le> 0x5A)) t'" by simp_all
    from low have "((if 0x41 \<le> a \<and> a \<le> 0x5A then a + 0x20 else a) = b) = same_letter a b"
      by (auto simp: same_letter_def)
    with Cons.IH [OF rest] Cons show ?thesis
      by (simp add: toLowerCase_def equals_ignoring_case_def)
  qed
qed

lemma toLowerCase_mermaid:
  "(toLowerCase tag = lit ''mermaid'') = equals_ignoring_case tag (lit ''mermaid'')"
  by (rule toLowerCase_eq_iff) (simp add: lit_def)

lemma FormattedContent_scan:
  "FormattedContent m z content =
     (case find_first fence content of
        None \<Rightarrow> map (\<lambda>t. ProseDiv (z (m (trim t)))) (filter (\<lambda>t. trim t \<noteq> []) [content])
      | Some (pre, rest) \<Rightarrow>
          (case find_first fence rest of
             None \<Rightarrow> [ProseDiv (z (m (trim content)))]
           | Some (body, rest') \<Rightarrow>
               map (\<lambda>t. ProseDiv (z (m (trim t)))) (filter (\<lambda>t. trim t \<noteq> []) [pre]) @
               (let tag = takeWhile isWordChar body;
                    payload = trim (case dropWhile isWordChar body of [] \<Rightarrow> []
                                    | c # cs \<Rightarrow> if c = 0xA then cs else c # cs)
                in if toLowerCase tag = lit ''mermaid'' then MermaidDiagram payload
                   else CodeBlock tag payload) #
               FormattedContent m z rest'))"
proof (cases "find_first fence content")
  case None
  then show ?thesis
    by (simp add: FormattedContent_def kept_parts_def split_fences_plain render_part_def
        codeBlockMatch_plain)
next
  case (Some a)
  obtain pre rest where a: "a = (pre, rest)" by (cases a)
  from Some a have s: "content = pre @ fence @ rest" by (simp add: find_first_split)
  show ?thesis
  proof (cases "find_first fence rest")
    case None
    have "trim content \<noteq> []" unfolding trim_empty_iff s by (rule fence_not_blank)
    with Some a None show ?thesis
      by (simp add: FormattedContent_def kept_parts_def split_fences_open render_part_def
          codeBlockMatch_open)
  next
    case inner: (Some b)
    obtain body rest' where b: "b = (body, rest')" by (cases b)
    have f: "trim (fence @ body @ fence) \<noteq> []"
      using fence_not_blank [of "[]" "body @ fence"] by (simp add: trim_empty_iff)
    from Some a have p: "codeBlockMatch pre = None" by (simp add: codeBlockMatch_pre)
    from Some a inner b f p show ?thesis
      by (simp add: FormattedContent_def kept_parts_def split_fences_closed render_part_def
          codeBlockMatch_fence Let_def)
  qed
qed

text \<open>
  Claim C3, as stated, fails when the tag of a fence is read as the text that follows
  the opening fence on its line. The code reads the run of word characters only: the
  fence tagged \<open>mermaid-x\<close> is a diagram (with \<open>-x\<close> at the head of its description), and
  the fence tagged \<open>mermaid\<close> after a space is a code block with the empty tag.
\<close>

theorem tag_is_word_run:
  "FormattedContent id id (lit ''```mermaid-x'' @ LF @ lit ''A-->B```'') =
     [MermaidDiagram (lit ''-x'' @ LF @ lit ''A-->B'')] \<and>
   FormattedContent id id (lit ''``` mermaid'' @ LF @ lit ''A-->B```'') =
     [CodeBlock [] (lit ''mermaid'' @ LF @ lit ''A-->B'')]"
  by (simp add: FormattedContent_def kept_parts_def split_fences.simps render_part_def
      codeBlockMatch_def lit_def LF_def fence_def trim_def isWhiteSpace_def isWordChar_def
      toLowerCase_def startsWith_def endsWith_def)

text \<open>
  Claim C3, amended. Reading a message from the left: without a fence it is prose
  (nothing when blank); when the leftmost fence has no closing fence, the whole
  remaining text, fence included, is one prose segment; otherwise the text before the
  fence is prose, the fence is a diagram when its tag, the longest run of word
  characters right after the opening fence, equals \<open>mermaid\<close> up to the case of its
  letters, and a code block with that tag otherwise, the empty tag included, and the
  text after the closing fence is read the same way.
\<close>

theorem fence_classification:
  "FormattedContent m z content =
     (case find_first fence content of
        None \<Rightarrow> map (\<lambda>t. ProseDiv (z (m (trim t)))) (filter (\<lambda>t. trim t \<noteq> []) [content])
      | Some (pre, rest) \<Rightarrow>
          (case find_first fence rest of
             None \<Rightarrow> [ProseDiv (z (m (trim content)))]
           | Some (body, rest') \<Rightarrow>
               map (\<lambda>t. ProseDiv (z (m (trim t)))) (filter (\<lambda>t. trim t \<noteq> []) [pre]) @
               (let tag = takeWhile isWordChar body;
                    payload = trim (case dropWhile isWordChar body of [] \<Rightarrow> []
                                    | c # cs \<Rightarrow> if c = 0xA then cs else c # cs)
                in if equals_ignoring_case tag (lit ''mermaid'') then MermaidDiagram payload
                   else CodeBlock tag payload) #
               FormattedContent m z rest'))"
  by (simp only: FormattedContent_scan [of m z content] toLowerCase_mermaid)

lemma fence_tag_case_examples:
  "FormattedContent id id (lit ''```MerMaid'' @ LF @ lit ''A-->B```'') =
     [MermaidDiagram (lit ''A-->B'')] \<and>
   FormattedContent id id (lit ''```mermaids'' @ LF @ lit ''A-->B```'') =
     [CodeBlock (lit ''mermaids'') (lit ''A-->B'')]"
  by (simp add: FormattedContent_def kept_parts_def split_fences.simps render_part_def
      codeBlockMatch_def lit_def LF_def fence_def trim_def isWhiteSpace_def isWordChar_def
      toLowerCase_def startsWith_def endsWith_def)

text \<open>
  The markup of every prose element is what the sanitizer returned for the markdown
  conversion of the trimmed part it comes from, a part that is no complete fence; no
  prose markup is built in another way.
\<close>

lemma prose_markup_from_sanitizer:
  assumes "ProseDiv h \<in> set (FormattedContent marked_parse sanitize content)"
  shows "\<exists>part. part \<in> set (kept_parts content) \<and> codeBlockMatch part = None \<and>
       h = sanitize (marked_parse (trim part))"
proof -
  from assms obtain part where part: "part \<in> set (kept_parts content)"
    and r: "render_part marked_parse sanitize part = ProseDiv h"
    by (auto simp: FormattedContent_def)
  from r have "codeBlockMatch part = None \<and> h = sanitize (marked_parse (trim part))"
    by (auto simp: render_part_def split: option.splits if_splits)
  with part show ?thesis by auto
qed

section \<open>The diagram viewport (ChatMessage.tsx, DiagramModal)\<close>

text \<open>
  JavaScript numbers are modelled as real numbers: the arithmetic of the handlers is
  exact here, and the rounding of IEEE doubles is not part of the model.
\<close>

record transform =
  scale :: real
  translateX :: real
  translateY :: real

definition identity_transform :: transform where
  "identity_transform = \<lparr>scale = 1, translateX = 0, translateY = 0\<rparr>"

text \<open>
  A mouse event, and a wheel event, which extends it. \<open>rect_left\<close> and \<open>rect_top\<close> are
  what \<open>viewport.getBoundingClientRect()\<close> returns while the wheel handler runs.
\<close>

record mouse_event =
  button :: int
  clientX :: real
  clientY :: real

record wheel_event = mouse_event +
  deltaY :: real
  rect_left :: real
  rect_top :: real

text \<open>
  The state of an open modal: \<open>transformRef.current\<close>; the transform written to
  \<open>content.style.transform\<close> (the one on screen); the number of callbacks handed to
  \<open>requestAnimationFrame\<close> that have not run yet; the private \<open>inThrottle\<close> flag of each
  of the two throttled handlers; \<open>startPoint\<close> and \<open>startTransform\<close> of the pan; and
  whether the \<open>mousemove\<close> and \<open>mouseup\<close> listeners are registered on the document.
\<close>

record modal =
  transformRef :: transform
  displayed :: transform
  frames :: nat
  wheelInThrottle :: bool
  moveInThrottle :: bool
  startPoint :: "real \<times> real"
  startTransform :: "real \<times> real"
  listening :: bool

definition modal_opened :: modal where
  "modal_opened =
     \<lparr>transformRef = identity_transform, displayed = identity_transform, frames = 0,
      wheelInThrottle = False, moveInThrottle = False,
      startPoint = (0, 0), startTransform = (0, 0), listening = False\<rparr>"

text \<open>
  \<open>throttle(func, limit)\<close>: the returned function calls \<open>func\<close> when \<open>inThrottle\<close> is
  not set, then sets it and starts the timer that clears it; a call made while the flag
  is set does nothing. The flag is the first component of the state.
\<close>

definition throttle :: "('e \<Rightarrow> 's \<Rightarrow> 's) \<Rightarrow> 'e \<Rightarrow> bool \<times> 's \<Rightarrow> bool \<times> 's" where
  "throttle func e = (\<lambda>(inThrottle, st).
     if \<not> inThrottle then (True, func e st) else (inThrottle, st))"

definition handleWheel :: "wheel_event \<Rightarrow> modal \<Rightarrow> modal" where
  "handleWheel e m =
     (let oldScale = scale (transformRef m);
          scaleRatio = 1.1;
          newScale = (if deltaY e < 0 then oldScale * scaleRatio else oldScale / scaleRatio);
          clampedScale = min (max 0.2 newScale) 10
      in if clampedScale = oldScale then m
         else
           let mouseX = clientX e - rect_left e;
               mouseY = clientY e - rect_top e;
               dx = (mouseX - translateX (transformRef m)) * (1 - clampedScale / oldScale);
               dy = (mouseY - translateY (transformRef m)) * (1 - clampedScale / oldScale)
           in m\<lparr>transformRef :=
                  \<lparr>scale = clampedScale,
                   translateX = translateX (transformRef m) + dx,
                   translateY = translateY (transformRef m) + dy\<rparr>,
                frames := Suc (frames m)\<rparr>)"

definition handleMouseMove :: "mouse_event \<Rightarrow> modal \<Rightarrow> modal" where
  "handleMouseMove e m =
     (let dx = clientX e - fst (startPoint m);
          dy = clientY e - snd (startPoint m)
      in m\<lparr>transformRef :=
             (transformRef m)\<lparr>translateX := fst (startTransform m) + dx,
                               translateY := snd (startTransform m) + dy\<rparr>,
           frames := Suc (frames m)\<rparr>)"

definition handleMouseUp :: "modal \<Rightarrow> modal" where
  "handleMouseUp m = m\<lparr>listening := False\<rparr>"

definition handleMouseDown :: "mouse_event \<Rightarrow> modal \<Rightarrow> modal" where
  "handleMouseDown e m =
     (if button e \<noteq> 0 then m
      else m\<lparr>startPoint := (clientX e, clientY e),
             startTransform := (translateX (transformRef m), translateY (transformRef m)),
             listening := True\<rparr>)"

text \<open>
  \<open>resetTransform\<close>, called by a double click on the viewport and by the reset button,
  writes the identity to the reference and to the style at once.
\<close>

definition resetTransform :: "modal \<Rightarrow> modal" where
  "resetTransform m = m\<lparr>transformRef := identity_transform, displayed := identity_transform\<rparr>"

text \<open>
  A callback of \<open>requestAnimationFrame\<close> writes the transform that the reference holds
  when the callback runs; all pending callbacks run in the same frame.
\<close>

definition animationFrame :: "modal \<Rightarrow> modal" where
  "animationFrame m = (if frames m = 0 then m else m\<lparr>displayed := transformRef m, frames := 0\<rparr>)"

text \<open>
  What the event loop delivers to an open modal: the DOM events, the expiry of the timer
  of either throttle, and an animation frame.
\<close>

datatype modal_event =
    Wheel wheel_event
  | MouseDown mouse_event
  | MouseMove mouse_event
  | MouseUp
  | ResetView
  | WheelTimeout
  | MoveTimeout
  | AnimationFrame

text \<open>
  One event. With \<open>limited\<close> the wheel and move handlers are wrapped in \<open>throttle\<close>, as
  the source registers them; without, they are called for every event (the unthrottled
  processing that the throttled one is compared with).
\<close>

fun step :: "bool \<Rightarrow> modal_event \<Rightarrow> modal \<Rightarrow> modal" where
  "step limited (Wheel e) m =
     (if limited then
        (let (b, m') = throttle handleWheel e (wheelInThrottle m, m)
         in m'\<lparr>wheelInThrottle := b\<rparr>)
      else handleWheel e m)"
| "step limited (MouseMove e) m =
     (if \<not> listening m then m
      else if limited then
        (let (b, m') = throttle handleMouseMove e (moveInThrottle m, m)
         in m'\<lparr>moveInThrottle := b\<rparr>)
      else handleMouseMove e m)"
| "step limited (MouseDown e) m = handleMouseDown e m"
| "step limited MouseUp m = (if listening m then handleMouseUp m else m)"
| "step limited ResetView m = resetTransform m"
| "step limited WheelTimeout m = m\<lparr>wheelInThrottle := False\<rparr>"
| "step limited MoveTimeout m = m\<lparr>moveInThrottle := False\<rparr>"
| "step limited AnimationFrame m = animationFrame m"

definition run :: "bool \<Rightarrow> modal_event list \<Rightarrow> modal \<Rightarrow> modal" where
  "run limited evs m = fold (step limited) evs m"

text \<open>The value of the local constant \<open>clampedScale\<close> of \<open>handleWheel\<close>.\<close>

definition clampedScale :: "real \<Rightarrow> real \<Rightarrow> real" where
  "clampedScale oldScale dy = min (max 0.2 (if dy < 0 then oldScale * 1.1 else oldScale / 1.1)) 10"

text \<open>
  The events that reach a handler when the handlers are throttled: a wheel event is
  dropped while the wheel throttle's flag is set, a move event while the move throttle's
  flag is set (and the listener registered); every other event is processed.
\<close>

definition dropped :: "modal \<Rightarrow> modal_event \<Rightarrow> bool" where
  "dropped m ev =
     (case ev of
        Wheel e \<Rightarrow> wheelInThrottle m
      | MouseMove e \<Rightarrow> listening m \<and> moveInThrottle m
      | _ \<Rightarrow> False)"

fun accepted :: "modal \<Rightarrow> modal_event list \<Rightarrow> modal_event list" where
  "accepted m [] = []"
| "accepted m (ev # evs) =
     (if dropped m ev then accepted m evs else ev # accepted (step True ev m) evs)"

text \<open>A state of the modal with the flags of both throttles cleared.\<close>

definition unlimited :: "modal \<Rightarrow> modal" where
  "unlimited m = m\<lparr>wheelInThrottle := False, moveInThrottle := False\<rparr>"

text \<open>A wheel tick towards the user (zoom in) at the point (100, 50) of the viewport.\<close>

definition zoom_in :: wheel_event where
  "zoom_in = \<lparr>button = 0, clientX = 100, clientY = 50, deltaY = - 100, rect_left = 0, rect_top = 0\<rparr>"

subsection \<open>Properties of the viewport\<close>

lemma clampedScale_range: "0.2 \<le> clampedScale s d \<and> clampedScale s d \<le> 10"
  by (simp add: clampedScale_def)

lemma handleWheel_clampedScale:
  "handleWheel e m =
     (if clampedScale (scale (transformRef m)) (deltaY e) = scale (transformRef m) then m
      else m\<lparr>transformRef :=
               \<lparr>scale = clampedScale (scale (transformRef m)) (deltaY e),
                translateX = translateX (transformRef m) +
                  (clientX e - rect_left e - translateX (transformRef m)) *
                  (1 - clampedScale (scale (transformRef m)) (deltaY e) / scale (transformRef m)),
                translateY = translateY (transformRef m) +
                  (clientY e - rect_top e - translateY (transformRef m)) *
                  (1 - clampedScale (scale (transformRef m)) (deltaY e) / scale (transformRef m))\<rparr>,
             frames := Suc (frames m)\<rparr>)"
  unfolding handleWheel_def clampedScale_def Let_def by (rule refl)

lemma handleWheel_scale_range:
  assumes "0.2 \<le> scale (transformRef m)" and "scale (transformRef m) \<le> 10"
  shows "0.2 \<le> scale (transformRef (handleWheel e m)) \<and> scale (transformRef (handleWheel e m)) \<le> 10"
proof (cases "clampedScale (scale (transformRef m)) (deltaY e) = scale (transformRef m)")
  case True
  then have "handleWheel e m = m" by (simp add: handleWheel_clampedScale)
  with assms show ?thesis by simp
next
  case False
  then have "scale (transformRef (handleWheel e m)) = clampedScale (scale (transformRef m)) (deltaY e)"
    by (simp add: handleWheel_clampedScale)
  with clampedScale_range show ?thesis by simp
qed

lemma step_scale_range:
  assumes "0.2 \<le> scale (transformRef m)" and "scale (transformRef m) \<le> 10"
  shows "0.2 \<le> scale (transformRef (step limited ev m)) \<and> scale (transformRef (step limited ev m)) \<le> 10"
proof (cases ev)
  case (Wheel e)
  with handleWheel_scale_range [OF assms, of e] assms show ?thesis
    by (simp add: throttle_def)
next
  case (MouseMove e)
  with assms show ?thesis by (simp add: throttle_def handleMouseMove_def Let_def)
next
  case (MouseDown e)
  with assms show ?thesis by (simp add: handleMouseDown_def)
next
  case MouseUp
  with assms show ?thesis by (simp add: handleMouseUp_def)
next
  case ResetView
  then show ?thesis by (simp add: resetTransform_def identity_transform_def)
next
  case WheelTimeout
  with assms show ?thesis by simp
next
  case MoveTimeout
  with assms show ?thesis by simp
next
  case AnimationFrame
  with assms show ?thesis by (simp add: animationFrame_def)
qed

lemma run_scale_range:
  assumes "0.2 \<le> scale (transformRef m)" and "scale (transformRef m) \<le> 10"
  shows "0.2 \<le> scale (transformRef (run limited evs m)) \<and> scale (transformRef (run limited evs m)) \<le> 10"
  using assms unfolding run_def
proof (induction evs arbitrary: m)
  case Nil
  then show ?case by simp
next
  case (Cons ev evs)
  from step_scale_range [OF Cons.prems, of limited ev] Cons.IH [of "step limited ev m"]
  show ?case by simp
qed

lemma fold_handleWheel_scale_range:
  assumes "0.2 \<le> scale (transformRef m)" and "scale (transformRef m) \<le> 10"
  shows "0.2 \<le> scale (transformRef (fold handleWheel es m)) \<and>
        scale (transformRef (fold handleWheel es m)) \<le> 10"
  using assms
proof (induction es arbitrary: m)
  case Nil
  then show ?case by simp
next
  case (Cons e es)
  from handleWheel_scale_range [OF Cons.prems, of e] Cons.IH [of "handleWheel e m"]
  show ?case by simp
qed

lemma anchor_algebra:
  fixes p q c s :: real
  assumes "0 < c" and "0 < s"
  shows "(p - (q + (p - q) * (1 - c / s))) / c = (p - q) / s"
proof -
  have "p - (q + (p - q) * (1 - c / s)) = (p - q) * (c / s)" by (simp add: algebra_simps)
  with assms show ?thesis by simp
qed

lemma step_dropped: "dropped m ev \<Longrightarrow> step True ev m = m"
  by (cases ev) (simp_all add: dropped_def throttle_def)

lemma handleWheel_unlimited: "handleWheel e (unlimited m) = unlimited (handleWheel e m)"
  by (simp add: handleWheel_clampedScale unlimited_def)

lemma handleWheel_flags:
  "handleWheel e (m\<lparr>wheelInThrottle := b\<rparr>) = (handleWheel e m)\<lparr>wheelInThrottle := b\<rparr>"
  by (simp add: handleWheel_clampedScale)

lemma step_accepted:
  "\<not> dropped m ev \<Longrightarrow> unlimited (step True ev m) = step False ev (unlimited m)"
proof (cases ev)
  case (Wheel e)
  assume "\<not> dropped m ev"
  with Wheel have "\<not> wheelInThrottle m" by (simp add: dropped_def)
  with Wheel show ?thesis
    by (simp add: throttle_def handleWheel_unlimited) (simp add: unlimited_def)
next
  case (MouseMove e)
  assume "\<not> dropped m ev"
  with MouseMove have "\<not> (listening m \<and> moveInThrottle m)" by (simp add: dropped_def)
  with MouseMove show ?thesis
    by (auto simp: throttle_def unlimited_def handleMouseMove_def Let_def)
next
  case (MouseDown e)
  then show ?thesis by (simp add: unlimited_def handleMouseDown_def)
next
  case MouseUp
  then show ?thesis by (simp add: unlimited_def handleMouseUp_def)
next
  case ResetView
  then show ?thesis by (simp add: unlimited_def resetTransform_def)
next
  case WheelTimeout
  then show ?thesis by (simp add: unlimited_def)
next
  case MoveTimeout
  then show ?thesis by (simp add: unlimited_def)
next
  case AnimationFrame
  then show ?thesis by (simp add: unlimited_def animationFrame_def)
qed

lemma step_False_unlimited: "step False ev (unlimited m) = unlimited (step False ev m)"
proof (cases ev)
  case (Wheel e)
  then show ?thesis by (simp add: handleWheel_unlimited)
next
  case (MouseMove e)
  then show ?thesis by (simp add: unlimited_def handleMouseMove_def Let_def)
next
  case (MouseDown e)
  then show ?thesis by (simp add: unlimited_def handleMouseDown_def)
next
  case MouseUp
  then show ?thesis by (simp add: unlimited_def handleMouseUp_def)
next
  case ResetView
  then show ?thesis by (simp add: unlimited_def resetTransform_def)
next
  case WheelTimeout
  then show ?thesis by (simp add: unlimited_def)
next
  case MoveTimeout
  then show ?thesis by (simp add: unlimited_def)
next
  case AnimationFrame
  then show ?thesis by (simp add: unlimited_def animationFrame_def)
qed

lemma run_False_unlimited: "run False evs (unlimited m) = unlimited (run False evs m)"
  unfolding run_def by (induction evs arbitrary: m) (simp_all add: step_False_unlimited)

lemma run_accepted:
  "unlimited (run True evs m) = run False (accepted m evs) (unlimited m)"
proof (induction evs arbitrary: m)
  case Nil
  show ?case by (simp add: run_def)
next
  case (Cons ev evs)
  show ?case
  proof (cases "dropped m ev")
    case True
    with Cons.IH [of m] show ?thesis by (simp add: run_def step_dropped)
  next
    case False
    with Cons.IH [of "step True ev m"] show ?thesis
      by (simp add: run_def step_accepted)
  qed
qed

lemma step_latest:
  assumes "frames m = 0 \<longrightarrow> displayed m = transformRef m"
  shows "frames (step limited ev m) = 0 \<longrightarrow> displayed (step limited ev m) = transformRef (step limited ev m)"
proof (cases ev)
  case (Wheel e)
  with assms show ?thesis by (simp add: throttle_def handleWheel_clampedScale)
next
  case (MouseMove e)
  with assms show ?thesis by (simp add: throttle_def handleMouseMove_def Let_def)
next
  case (MouseDown e)
  with assms show ?thesis by (simp add: handleMouseDown_def)
next
  case MouseUp
  with assms show ?thesis by (simp add: handleMouseUp_def)
next
  case ResetView
  with assms show ?thesis by (simp add: resetTransform_def)
next
  case WheelTimeout
  with assms show ?thesis by simp
next
  case MoveTimeout
  with assms show ?thesis by simp
next
  case AnimationFrame
  with assms show ?thesis by (simp add: animationFrame_def)
qed

lemma run_latest:
  assumes "frames m = 0 \<longrightarrow> displayed m = transformRef m"
  shows "frames (run limited evs m) = 0 \<longrightarrow> displayed (run limited evs m) = transformRef (run limited evs m)"
  using assms unfolding run_def
proof (induction evs arbitrary: m)
  case Nil
  then show ?case by simp
next
  case (Cons ev evs)
  from Cons.IH [OF step_latest [OF Cons.prems, of limited ev]] show ?case by simp
qed

lemmas modal_eval = run_def throttle_def handleWheel_def animationFrame_def modal_opened_def
  identity_transform_def zoom_in_def resetTransform_def Let_def

text \<open>
  Claim C5. A zoom step with the cursor at \<open>(cursorX, cursorY)\<close> of the viewport, from
  a positive scale: when the clamped scale is the current one, nothing changes;
  otherwise the scale becomes the clamped one and each translate grows by
  \<open>(cursor - translate) * (1 - newScale / oldScale)\<close>. Either way the point of the diagram
  under the cursor, \<open>(cursor - translate) / scale\<close>, is the same before and after (in
  exact arithmetic).
\<close>

theorem zoom_cursor_anchored:
  assumes "0 < scale (transformRef m)"
  shows "let t = transformRef m; t' = transformRef (handleWheel e m);
             cursorX = clientX e - rect_left e; cursorY = clientY e - rect_top e;
             newScale = min (max 0.2 (if deltaY e < 0 then scale t * 1.1 else scale t / 1.1)) 10
         in (if newScale = scale t then handleWheel e m = m
             else scale t' = newScale \<and>
                  translateX t' = translateX t + (cursorX - translateX t) * (1 - newScale / scale t) \<and>
                  translateY t' = translateY t + (cursorY - translateY t) * (1 - newScale / scale t)) \<and>
            (cursorX - translateX t') / scale t' = (cursorX - translateX t) / scale t \<and>
            (cursorY - translateY t') / scale t' = (cursorY - translateY t) / scale t"
proof -
  define c where "c = clampedScale (scale (transformRef m)) (deltaY e)"
  have cpos: "0 < c" using clampedScale_range [of "scale (transformRef m)" "deltaY e"] by (simp add: c_def)
  have hw: "handleWheel e m =
     (if c = scale (transformRef m) then m
      else m\<lparr>transformRef :=
               \<lparr>scale = c,
                translateX = translateX (transformRef m) +
                  (clientX e - rect_left e - translateX (transformRef m)) *
                  (1 - c / scale (transformRef m)),
                translateY = translateY (transformRef m) +
                  (clientY e - rect_top e - translateY (transformRef m)) *
                  (1 - c / scale (transformRef m))\<rparr>,
             frames := Suc (frames m)\<rparr>)"
    unfolding c_def by (rule handleWheel_clampedScale)
  have goal: "(if c = scale (transformRef m) then handleWheel e m = m
        else scale (transformRef (handleWheel e m)) = c \<and>
          translateX (transformRef (handleWheel e m)) = translateX (transformRef m) +
            (clientX e - rect_left e - translateX (transformRef m)) * (1 - c / scale (transformRef m)) \<and>
          translateY (transformRef (handleWheel e m)) = translateY (transformRef m) +
            (clientY e - rect_top e - translateY (transformRef m)) * (1 - c / scale (transformRef m))) \<and>
     (clientX e - rect_left e - translateX (transformRef (handleWheel e m))) / scale (transformRef (handleWheel e m)) =
       (clientX e - rect_left e - translateX (transformRef m)) / scale (transformRef m) \<and>
     (clientY e - rect_top e - translateY (transformRef (handleWheel e m))) / scale (transformRef (handleWheel e m)) =
       (clientY e - rect_top e - translateY (transformRef m)) / scale (transformRef m)"
  proof (cases "c = scale (transformRef m)")
    case True
    then have "handleWheel e m = m" by (simp add: hw)
    with True show ?thesis by simp
  next
    case False
    with hw have t': "transformRef (handleWheel e m) =
               \<lparr>scale = c,
                translateX = translateX (transformRef m) +
                  (clientX e - rect_left e - translateX (transformRef m)) *
                  (1 - c / scale (transformRef m)),
                translateY = translateY (transformRef m) +
                  (clientY e - rect_top e - translateY (transformRef m)) *
                  (1 - c / scale (transformRef m))\<rparr>"
      by simp
    from False show ?thesis
      unfolding t' by (simp add: anchor_algebra [OF cpos assms])
  qed
  then show ?thesis
    unfolding Let_def c_def clampedScale_def .
qed

theorem zoom_cursor_anchored_witness:
  "0 < scale (transformRef modal_opened) \<and>
   transformRef (handleWheel zoom_in modal_opened) =
     \<lparr>scale = 1.1, translateX = - 10, translateY = - 5\<rparr> \<and>
   (clientX zoom_in - rect_left zoom_in - translateX (transformRef (handleWheel zoom_in modal_opened))) /
     scale (transformRef (handleWheel zoom_in modal_opened)) = 100 \<and>
   (clientY zoom_in - rect_top zoom_in - translateY (transformRef (handleWheel zoom_in modal_opened))) /
     scale (transformRef (handleWheel zoom_in modal_opened)) = 50"
proof -
  have h: "0 < scale (transformRef modal_opened)"
    by (simp add: modal_opened_def identity_transform_def)
  from zoom_cursor_anchored [OF h, of zoom_in] show ?thesis
    by (simp add: modal_eval)
qed

text \<open>
  Claim C6. From a scale in [0.2, 10], any sequence of wheel events leaves the scale in
  [0.2, 10]; and so does any sequence of events of the modal, throttled or not.
\<close>

theorem zoom_scale_bounded:
  assumes "0.2 \<le> scale (transformRef m)" and "scale (transformRef m) \<le> 10"
  shows "0.2 \<le> scale (transformRef (fold handleWheel es m)) \<and>
         scale (transformRef (fold handleWheel es m)) \<le> 10 \<and>
         0.2 \<le> scale (transformRef (run limited evs m)) \<and>
         scale (transformRef (run limited evs m)) \<le> 10"
  using fold_handleWheel_scale_range [OF assms, of es] run_scale_range [OF assms, of limited evs]
  by simp

theorem zoom_scale_bounded_witness:
  "0.2 \<le> scale (transformRef modal_opened) \<and> scale (transformRef modal_opened) \<le> 10 \<and>
   0.2 \<le> scale (transformRef (fold handleWheel [zoom_in, zoom_in] modal_opened)) \<and>
   scale (transformRef (fold handleWheel [zoom_in, zoom_in] modal_opened)) \<le> 10 \<and>
   0.2 \<le> scale (transformRef (run True [Wheel zoom_in, ResetView] modal_opened)) \<and>
   scale (transformRef (run True [Wheel zoom_in, ResetView] modal_opened)) \<le> 10"
proof -
  have lo: "0.2 \<le> scale (transformRef modal_opened)"
    and hi: "scale (transformRef modal_opened) \<le> 10"
    by (simp_all add: modal_opened_def identity_transform_def)
  from zoom_scale_bounded [OF lo hi, of "[zoom_in, zoom_in]" True "[Wheel zoom_in, ResetView]"] lo hi
  show ?thesis by blast
qed

text \<open>
  Claim C8, as stated, fails: two wheel ticks that arrive before the throttle's timer has
  fired are one zoom step when throttled and two when not; the second, last event is
  dropped, and the frame that follows displays scale 1.1, not 1.21.
\<close>

theorem throttle_drops_last_event:
  "displayed (run True [Wheel zoom_in, Wheel zoom_in, AnimationFrame] modal_opened) \<noteq>
   displayed (run False [Wheel zoom_in, Wheel zoom_in, AnimationFrame] modal_opened)"
proof -
  have "scale (displayed (run True [Wheel zoom_in, Wheel zoom_in, AnimationFrame] modal_opened)) = 1.1"
    by (simp add: modal_eval)
  moreover
  have "scale (displayed (run False [Wheel zoom_in, Wheel zoom_in, AnimationFrame] modal_opened)) = 1.21"
    by (simp add: modal_eval)
  ultimately show ?thesis by auto
qed

text \<open>
  Claim C8, amended. Throttled processing displays, and holds in the reference, what
  unthrottled processing of the accepted events alone does (the events that arrive while
  the flag of their throttle is set are dropped, the last one included). And the
  displayed transform is the most recently computed one whenever no animation frame is
  pending, provided this held when the sequence began.
\<close>

theorem throttled_display:
  "displayed (run True evs m) = displayed (run False (accepted m evs) m) \<and>
   transformRef (run True evs m) = transformRef (run False (accepted m evs) m) \<and>
   ((frames m = 0 \<longrightarrow> displayed m = transformRef m) \<longrightarrow>
    (frames (run True evs m) = 0 \<longrightarrow>
     displayed (run True evs m) = transformRef (run True evs m)))"
proof -
  have "unlimited (run True evs m) = unlimited (run False (accepted m evs) m)"
    by (simp add: run_accepted run_False_unlimited)
  then have "displayed (unlimited (run True evs m)) = displayed (unlimited (run False (accepted m evs) m))"
    and "transformRef (unlimited (run True evs m)) = transformRef (unlimited (run False (accepted m evs) m))"
    by simp_all
  then have "displayed (run True evs m) = displayed (run False (accepted m evs) m)"
    and "transformRef (run True evs m) = transformRef (run False (accepted m evs) m)"
    by (simp_all add: unlimited_def)
  with run_latest [of m True evs] show ?thesis by blast
qed

theorem throttled_display_witness:
  "accepted modal_opened [Wheel zoom_in, Wheel zoom_in, WheelTimeout, Wheel zoom_in, AnimationFrame] =
     [Wheel zoom_in, WheelTimeout, Wheel zoom_in, AnimationFrame] \<and>
   displayed (run True [Wheel zoom_in, Wheel zoom_in, WheelTimeout, Wheel zoom_in, AnimationFrame] modal_opened) =
     displayed (run False [Wheel zoom_in, WheelTimeout, Wheel zoom_in, AnimationFrame] modal_opened) \<and>
   frames (run True [Wheel zoom_in, Wheel zoom_in, WheelTimeout, Wheel zoom_in, AnimationFrame] modal_opened) = 0 \<and>
   displayed (run True [Wheel zoom_in, Wheel zoom_in, WheelTimeout, Wheel zoom_in, AnimationFrame] modal_opened) =
     transformRef (run True [Wheel zoom_in, Wheel zoom_in, WheelTimeout, Wheel zoom_in, AnimationFrame] modal_opened)"
proof -
  have a: "accepted modal_opened [Wheel zoom_in, Wheel zoom_in, WheelTimeout, Wheel zoom_in, AnimationFrame] =
     [Wheel zoom_in, WheelTimeout, Wheel zoom_in, AnimationFrame]"
    by (simp add: dropped_def modal_eval)
  have f: "frames (run True [Wheel zoom_in, Wheel zoom_in, WheelTimeout, Wheel zoom_in, AnimationFrame] modal_opened) = 0"
    by (simp add: modal_eval)
  have i: "frames modal_opened = 0 \<longrightarrow> displayed modal_opened = transformRef modal_opened"
    by (simp add: modal_opened_def)
  from throttled_display [of "[Wheel zoom_in, Wheel zoom_in, WheelTimeout, Wheel zoom_in, AnimationFrame]" modal_opened]
    a f i
  show ?thesis by metis
qed

section \<open>Messages (types.ts)\<close>

datatype MessageRole = USER | MODEL

datatype ModelName = Gemini_2_5_pro | Gemini_2_5_flash

text \<open>
  An attachment; \<open>textContent\<close> is read by \<open>App.tsx\<close> and may be absent. A folder as
  \<open>ChatInput\<close> hands it over (\<open>ProcessedFolder\<close>: \<open>name\<close>, \<open>fileCount\<close>, \<open>content\<close>; the
  fields are prefixed here, \<open>name\<close> and \<open>content\<close> being fields of other records).
\<close>

record Attachment =
  dataUrl :: jsstring
  name :: jsstring
  type :: jsstring
  textContent :: "jsstring option"

record ProcessedFolder =
  folder_name :: jsstring
  folder_fileCount :: nat
  folder_content :: jsstring

record ChatMessage =
  role :: MessageRole
  content :: jsstring
  attachment :: "Attachment option"
  folder :: "ProcessedFolder option"
  model :: "ModelName option"

text \<open>
  A value that is thrown: an \<open>Error\<close> with its message, or anything else, with
  what \<open>String\<close> makes of it.
\<close>

datatype thrown = Error jsstring | Thrown jsstring

section \<open>Scroll intent (ChatHistory.tsx)\<close>










section \<open>Diagram rendering (ChatMessage.tsx, MermaidDiagram)\<close>

text \<open>
  What \<open>window.mermaid.render\<close> does with a chart: it resolves to markup or throws.
\<close>

datatype render_outcome = Rendered jsstring | Failed thrown

record MermaidDiagram_state =
  svg :: jsstring
  diagram_isLoading :: bool

definition MermaidDiagram_mounted :: MermaidDiagram_state where
  "MermaidDiagram_mounted = \<lparr>svg = [], diagram_isLoading = True\<rparr>"

definition dquote :: jsstring where
  "dquote = [0x22]"

text \<open>The template literal of the \<open>catch\<close> branch, around \<open>errorMessage\<close>.\<close>

definition error_panel_open :: jsstring where
  "error_panel_open =
     lit ''<div class='' @ dquote @ lit ''p-4 text-red-500 bg-red-100 rounded-md'' @ dquote @
     lit ''><strong>Diagram Error:</strong><br/><pre class='' @ dquote @
     lit ''whitespace-pre-wrap text-xs'' @ dquote @ lit ''>''"

definition error_panel_close :: jsstring where
  "error_panel_close = lit ''</pre></div>''"

text \<open>
  \<open>renderDiagram\<close> and its \<open>finally\<close>. \<open>has_mermaid\<close> is whether \<open>window.mermaid\<close> is
  there; \<open>querySelector_svg\<close> stands for the DOM steps on the rendered markup (parse it,
  find the \<open>svg\<close> element, strip \<open>height\<close>, \<open>width\<close> and \<open>style\<close>, add the class, take
  \<open>outerHTML\<close>), \<open>None\<close> when there is no such element; \<open>isMounted\<close> is the flag when
  the promise settles.
\<close>

definition renderDiagram ::
  "jsstring \<Rightarrow> bool \<Rightarrow> render_outcome \<Rightarrow> (jsstring \<Rightarrow> jsstring option) \<Rightarrow> bool \<Rightarrow>
   MermaidDiagram_state \<Rightarrow> MermaidDiagram_state" where
  "renderDiagram chart has_mermaid outcome querySelector_svg isMounted st =
     (let st' =
        (if chart \<noteq> [] \<and> has_mermaid then
           (case outcome of
              Rendered rawSvg \<Rightarrow>
                (case querySelector_svg rawSvg of
                   Some outerHTML \<Rightarrow> if isMounted then st\<lparr>svg := outerHTML\<rparr> else st
                 | None \<Rightarrow> if isMounted then st\<lparr>svg := rawSvg\<rparr> else st)
            | Failed e \<Rightarrow>
                if isMounted then
                  let errorMessage = (case e of Error message \<Rightarrow> message | Thrown str \<Rightarrow> str)
                  in st\<lparr>svg := error_panel_open @ errorMessage @ error_panel_close\<rparr>
                else st)
         else st)
      in if isMounted then st'\<lparr>diagram_isLoading := False\<rparr> else st')"

definition isRenderSuccess :: "MermaidDiagram_state \<Rightarrow> bool" where
  "isRenderSuccess st \<longleftrightarrow> startsWith (trim (svg st)) (lit ''<svg'')"

text \<open>The buttons of the toolbar, which is rendered once loading is over.\<close>

datatype toolbar_action = Copy | Download | Expand

definition toolbar :: "MermaidDiagram_state \<Rightarrow> toolbar_action list" where
  "toolbar st =
     (if diagram_isLoading st then []
      else Copy # (if isRenderSuccess st then [Download, Expand] else []))"

text \<open>A click on the rendered diagram opens the modal only after a successful render.\<close>

definition diagram_click_opens_modal :: "MermaidDiagram_state \<Rightarrow> bool" where
  "diagram_click_opens_modal st \<longleftrightarrow> \<not> diagram_isLoading st \<and> isRenderSuccess st"

lemma trim_unchanged:
  assumes "s \<noteq> []" and "\<not> isWhiteSpace (hd s)" and "\<not> isWhiteSpace (last s)"
  shows "trim s = s"
proof -
  from assms(1,2) have a: "dropWhile isWhiteSpace s = s" by (cases s) auto
  from assms(1,3) have "dropWhile isWhiteSpace (rev s) = rev s"
    by (cases "rev s") (auto simp: last_rev [symmetric] hd_rev)
  with a show ?thesis by (simp add: trim_def)
qed

lemma error_panel_not_svg:
  "\<not> startsWith (trim (error_panel_open @ msg @ error_panel_close)) (lit ''<svg'')"
proof -
  let ?s = "error_panel_open @ msg @ error_panel_close"
  have o: "error_panel_open = lit ''<div'' @ drop 4 error_panel_open"
    by (simp add: error_panel_open_def lit_def)
  have c: "error_panel_close = butlast error_panel_close @ [0x3E]"
    by (simp add: error_panel_close_def lit_def)
  have hd: "hd ?s = 0x3C" by (subst o) (simp add: lit_def)
  have ls: "last ?s = 0x3E" by (subst c) simp
  have ne: "?s \<noteq> []" by (subst o) (simp add: lit_def)
  have tr: "trim ?s = ?s"
    by (rule trim_unchanged) (simp_all only: ne hd ls not_False_eq_True, simp_all add: isWhiteSpace_def)
  have t4: "take 4 ?s = lit ''<div''" by (subst o) (simp add: lit_def)
  have len: "length (lit ''<svg'') = 4" by (simp add: lit_def)
  have "take (length (lit ''<svg'')) (trim ?s) = lit ''<div''" by (simp only: tr len t4)
  moreover have "lit ''<div'' \<noteq> lit ''<svg''" by (simp add: lit_def)
  ultimately show ?thesis unfolding startsWith_def by metis
qed

text \<open>
  Claim C10. When the diagram engine throws for a chart, the markup stored is the error
  panel with the message between its opening and closing text, character for character
  (no sanitizer is applied on this path); the markup does not start with \<open><svg\<close>, so the
  toolbar offers the copy action only, neither download nor expand, and a click on the
  panel does not open the modal.
\<close>

theorem diagram_failure_panel:
  assumes "chart \<noteq> []"
  shows "svg (renderDiagram chart True (Failed (Error msg)) q True st) =
           error_panel_open @ msg @ error_panel_close \<and>
         svg (renderDiagram chart True (Failed (Thrown msg)) q True st) =
           error_panel_open @ msg @ error_panel_close \<and>
         \<not> isRenderSuccess (renderDiagram chart True (Failed (Error msg)) q True st) \<and>
         toolbar (renderDiagram chart True (Failed (Error msg)) q True st) = [Copy] \<and>
         \<not> diagram_click_opens_modal (renderDiagram chart True (Failed (Error msg)) q True st)"
  using assms error_panel_not_svg [of msg]
  by (simp add: renderDiagram_def toolbar_def isRenderSuccess_def diagram_click_opens_modal_def)

theorem diagram_failure_panel_witness:
  "lit ''graph'' \<noteq> [] \<and>
   svg (renderDiagram (lit ''graph'') True (Failed (Error (lit ''<img onerror=x>''))) (\<lambda>s. None) True
        MermaidDiagram_mounted) =
     error_panel_open @ lit ''<img onerror=x>'' @ error_panel_close \<and>
   toolbar (renderDiagram (lit ''graph'') True (Failed (Error (lit ''<img onerror=x>''))) (\<lambda>s. None) True
        MermaidDiagram_mounted) = [Copy]"
proof -
  have h: "lit ''graph'' \<noteq> []" by (simp add: lit_def)
  from diagram_failure_panel [OF h, of "lit ''<img onerror=x>''" "\<lambda>s. None" MermaidDiagram_mounted] h
  show ?thesis by blast
qed

section \<open>Sending a message (App.tsx)\<close>

definition isLineTerminator :: "16 word \<Rightarrow> bool" where
  "isLineTerminator u \<longleftrightarrow> u = 0xA \<or> u = 0xD \<or> u = 0x2028 \<or> u = 0x2029"

text \<open>The rightmost occurrence of a pattern: the text before it and the text after it.\<close>

definition find_last :: "jsstring \<Rightarrow> jsstring \<Rightarrow> (jsstring \<times> jsstring) option" where
  "find_last pat s =
     (case find_first (rev pat) (rev s) of
        None \<Rightarrow> None
      | Some (p, r) \<Rightarrow> Some (rev r, rev p))"

text \<open>A part of a request: \<open>{inlineData: {data, mimeType}}\<close> or \<open>{text}\<close>.\<close>

datatype Part = InlineData jsstring jsstring | Text jsstring

type_synonym Content = "MessageRole \<times> Part list"

text \<open>
  \<open>dataUrl.match(/^data:(.*);base64,(.*)$/)\<close>. A dot matches no line terminator and the
  pattern spans the whole string, so a match needs the prefix \<open>data:\<close>, no line terminator
  after it, and an occurrence of \<open>;base64,\<close>; the first group being greedy, it ends at the
  rightmost occurrence. Without a match the function throws.
\<close>

definition fileToPart :: "jsstring \<Rightarrow> thrown + Part" where
  "fileToPart url =
     (if startsWith url (lit ''data:'') \<and> \<not> list_ex isLineTerminator (drop 5 url) then
        (case find_last (lit '';base64,'') (drop 5 url) of
           None \<Rightarrow> Inl (Error (lit ''Invalid data URL''))
         | Some (mimeType, base64Data) \<Rightarrow> Inr (InlineData base64Data mimeType))
      else Inl (Error (lit ''Invalid data URL'')))"

definition apostrophe :: jsstring where
  "apostrophe = [0x27]"

text \<open>\<open>name.split('.').pop() || ''\<close>: what follows the last dot, the whole name without one.\<close>

definition file_extension :: "jsstring \<Rightarrow> jsstring" where
  "file_extension nm = rev (takeWhile (\<lambda>u. u \<noteq> 0x2E) (rev nm))"

text \<open>The two template literals that put a folder or a text file before the request.\<close>

definition folder_context_text :: "jsstring \<Rightarrow> jsstring \<Rightarrow> jsstring" where
  "folder_context_text fcontent prompt =
     fcontent @ LF @ LF @ lit ''Based on the folder context above, here is the user'' @
     apostrophe @ lit ''s request:'' @ LF @ LF @ prompt"

definition file_context_text :: "jsstring \<Rightarrow> jsstring \<Rightarrow> jsstring \<Rightarrow> jsstring" where
  "file_context_text nm ftext prompt =
     (let lang = file_extension nm;
          fileContext = lit ''User has uploaded a file named '' @ dquote @ nm @ dquote @
            lit ''. Here is its content:'' @ LF @ fence @ lang @ LF @ ftext @ LF @ fence
      in fileContext @ LF @ LF @ lit ''Based on the file content above, here is the user'' @
         apostrophe @ lit ''s request:'' @ LF @ LF @ prompt)"

text \<open>
  The callback that maps a message of the history to a \<open>Content\<close>. An empty string is
  falsy: a folder counts when its content is not empty, an attachment's text and data
  URL likewise.
\<close>

definition history_content :: "ChatMessage \<Rightarrow> thrown + Content" where
  "history_content msg =
     (let folderContent = (case folder msg of None \<Rightarrow> [] | Some f \<Rightarrow> folder_content f);
          attachmentText =
            (case attachment msg of None \<Rightarrow> []
             | Some a \<Rightarrow> (case textContent a of None \<Rightarrow> [] | Some t \<Rightarrow> t));
          attachmentName = (case attachment msg of None \<Rightarrow> [] | Some a \<Rightarrow> name a);
          attachmentUrl = (case attachment msg of None \<Rightarrow> [] | Some a \<Rightarrow> dataUrl a);
          textContent' =
            (if role msg = USER then
               (if folderContent \<noteq> [] then folder_context_text folderContent (content msg)
                else if attachmentText \<noteq> []
                  then file_context_text attachmentName attachmentText (content msg)
                else content msg)
             else content msg)
      in if attachmentUrl \<noteq> [] then
           (case fileToPart attachmentUrl of
              Inl e \<Rightarrow> Inl e
            | Inr part \<Rightarrow> Inr (role msg, [part, Text textContent']))
         else Inr (role msg, [Text textContent']))"

fun history_map :: "ChatMessage list \<Rightarrow> thrown + Content list" where
  "history_map [] = Inr []"
| "history_map (msg # msgs) =
     (case history_content msg of
        Inl e \<Rightarrow> Inl e
      | Inr c \<Rightarrow> (case history_map msgs of Inl e \<Rightarrow> Inl e | Inr cs \<Rightarrow> Inr (c # cs)))"

text \<open>The current message; here a folder counts whenever there is one.\<close>

definition current_content ::
  "jsstring \<Rightarrow> Attachment option \<Rightarrow> ProcessedFolder option \<Rightarrow> thrown + Content" where
  "current_content prompt att fol =
     (let attachmentText =
            (case att of None \<Rightarrow> []
             | Some a \<Rightarrow> (case textContent a of None \<Rightarrow> [] | Some t \<Rightarrow> t));
          attachmentName = (case att of None \<Rightarrow> [] | Some a \<Rightarrow> name a);
          attachmentUrl = (case att of None \<Rightarrow> [] | Some a \<Rightarrow> dataUrl a);
          finalPrompt =
            (case fol of
               Some f \<Rightarrow> folder_context_text (folder_content f) prompt
             | None \<Rightarrow>
                 if attachmentText \<noteq> [] then file_context_text attachmentName attachmentText prompt
                 else prompt)
      in if attachmentUrl \<noteq> [] then
           (case fileToPart attachmentUrl of
              Inl e \<Rightarrow> Inl e
            | Inr part \<Rightarrow> Inr (USER, [part, Text finalPrompt]))
         else Inr (USER, [Text finalPrompt]))"

record App =
  messages :: "ChatMessage list"
  isLoading :: bool
  error :: "jsstring option"
  selectedModel :: ModelName

definition model_message :: "ModelName \<Rightarrow> jsstring \<Rightarrow> ChatMessage" where
  "model_message m txt =
     \<lparr>role = MODEL, content = txt, attachment = None, folder = None, model = Some m\<rparr>"

text \<open>
  \<open>newMessages[newMessages.length - 1] = x\<close> on a copy: with no message the index is -1
  and the assignment adds no element.
\<close>

definition replace_last :: "ChatMessage list \<Rightarrow> ChatMessage \<Rightarrow> ChatMessage list" where
  "replace_last msgs x = (if msgs = [] then msgs else msgs[length msgs - 1 := x])"

text \<open>
  A chunk of the stream is given by its \<open>text\<close>, which is a string or \<open>undefined\<close> (a
  chunk without a text part): \<open>None\<close> here. What \<open>modelResponse += chunk.text\<close> appends
  is the text, and the string \<open>undefined\<close> for \<open>undefined\<close>.
\<close>

definition appended_text :: "jsstring option \<Rightarrow> jsstring" where
  "appended_text chunk_text =
     (case chunk_text of None \<Rightarrow> lit ''undefined'' | Some t \<Rightarrow> t)"

text \<open>
  One turn of \<open>for await (const chunk of stream)\<close>, on \<open>modelResponse\<close> and the messages.
\<close>

definition consume_chunk ::
  "ModelName \<Rightarrow> jsstring option \<Rightarrow> jsstring \<times> ChatMessage list \<Rightarrow>
   jsstring \<times> ChatMessage list" where
  "consume_chunk m chunk_text = (\<lambda>(modelResponse, msgs).
     let modelResponse' = modelResponse @ appended_text chunk_text
     in (modelResponse', replace_last msgs (model_message m modelResponse')))"

text \<open>The messages after each turn of the loop, from the first to the last.\<close>

definition stream_trace ::
  "ModelName \<Rightarrow> jsstring option list \<Rightarrow> jsstring \<times> ChatMessage list \<Rightarrow>
   ChatMessage list list" where
  "stream_trace m chunks st =
     map (\<lambda>k. snd (fold (consume_chunk m) (take (Suc k) chunks) st)) [0..<length chunks]"

definition errorMessage_of :: "thrown \<Rightarrow> jsstring" where
  "errorMessage_of e = (case e of Error message \<Rightarrow> message
     | Thrown str \<Rightarrow> lit ''An unknown error occurred.'')"

text \<open>
  \<open>handleSendMessage\<close>, from the call to the end of its \<open>finally\<close>. The parameter
  \<open>generateContentStream\<close> is the transport: for a model and the contents it throws, or
  yields the chunks of a stream that ends or throws after them. The history
  is built from the messages the callback closed over, those before the user message.
\<close>

definition handleSendMessage ::
  "(ModelName \<Rightarrow> Content list \<Rightarrow> thrown + (jsstring option list \<times> thrown option)) \<Rightarrow>
   jsstring \<Rightarrow> Attachment option \<Rightarrow> ProcessedFolder option \<Rightarrow> App \<Rightarrow> App" where
  "handleSendMessage generateContentStream prompt att fol app =
     (let userMessage =
            \<lparr>role = USER, content = prompt, attachment = att, folder = fol, model = None\<rparr>;
          app1 = app\<lparr>isLoading := True, error := None, messages := messages app @ [userMessage]\<rparr>;
          attempt =
            (case history_map (drop 1 (messages app)) of
               Inl e \<Rightarrow> Inl (e, messages app1)
             | Inr history \<Rightarrow>
                 (case current_content prompt att fol of
                    Inl e \<Rightarrow> Inl (e, messages app1)
                  | Inr current \<Rightarrow>
                      (case generateContentStream (selectedModel app) (history @ [current]) of
                         Inl e \<Rightarrow> Inl (e, messages app1)
                       | Inr (chunks, failure) \<Rightarrow>
                           (let streamed = fold (consume_chunk (selectedModel app)) chunks
                                  ([], messages app1 @ [model_message (selectedModel app) []])
                            in case failure of
                                 None \<Rightarrow> Inr (snd streamed)
                               | Some e \<Rightarrow> Inl (e, snd streamed)))))
      in case attempt of
           Inr msgs \<Rightarrow> app1\<lparr>messages := msgs, isLoading := False\<rparr>
         | Inl (e, msgs) \<Rightarrow>
             app1\<lparr>error := Some (lit ''Error: '' @ errorMessage_of e),
                  messages := msgs @ [model_message (selectedModel app)
                    (lit ''Sorry, I encountered an error. Please try again. Details: '' @
                     errorMessage_of e)],
                  isLoading := False\<rparr>)"

section \<open>The composer (ChatInput.tsx)\<close>

record ChatInput =
  input :: jsstring
  fileData :: "Attachment option"
  folderData :: "ProcessedFolder option"
  input_error :: "jsstring option"

text \<open>
  \<open>performSubmit\<close>, with \<open>onSendMessage\<close> bound to \<open>handleSendMessage\<close> as \<open>App\<close> does. The
  call is not awaited; \<open>setInput('')\<close> and \<open>resetAttachments()\<close> follow it in any case.
\<close>

definition performSubmit ::
  "(ModelName \<Rightarrow> Content list \<Rightarrow> thrown + (jsstring option list \<times> thrown option)) \<Rightarrow>
   App \<times> ChatInput \<Rightarrow> App \<times> ChatInput" where
  "performSubmit generateContentStream = (\<lambda>(app, ci).
     if (trim (input ci) \<noteq> [] \<or> fileData ci \<noteq> None \<or> folderData ci \<noteq> None) \<and> \<not> isLoading app
     then (handleSendMessage generateContentStream (trim (input ci)) (fileData ci) (folderData ci) app,
           ci\<lparr>input := [], fileData := None, folderData := None, input_error := None\<rparr>)
     else (app, ci))"

text \<open>
  A submission with an attachment whose data URL is \<open>data:\<close> (what reading an empty file
  gives), to a transport that would answer.
\<close>

definition empty_file :: Attachment where
  "empty_file =
     \<lparr>dataUrl = lit ''data:'', name = lit ''empty.png'', type = lit ''image/png'',
      textContent = None\<rparr>"

definition app_idle :: App where
  "app_idle =
     \<lparr>messages = [model_message Gemini_2_5_pro (lit ''Hello!'')], isLoading = False,
      error = None, selectedModel = Gemini_2_5_pro\<rparr>"

definition composer_filled :: ChatInput where
  "composer_filled =
     \<lparr>input = lit ''look at this'', fileData = Some empty_file, folderData = None,
      input_error = None\<rparr>"

definition transport_ok ::
  "ModelName \<Rightarrow> Content list \<Rightarrow> thrown + (jsstring option list \<times> thrown option)" where
  "transport_ok m contents = Inr ([Some (lit ''ok'')], None)"

subsection \<open>Properties of sending\<close>

lemma replace_last_snoc: "replace_last (msgs @ [p]) x = msgs @ [x]"
  by (simp add: replace_last_def)

lemma fold_consume_chunk:
  "fold (consume_chunk m) chunks (r, msgs @ [p]) =
     (r @ concat (map appended_text chunks),
      msgs @ [if chunks = [] then p else model_message m (r @ concat (map appended_text chunks))])"
proof (induction chunks arbitrary: r p)
  case Nil
  show ?case by simp
next
  case (Cons d ds)
  have "consume_chunk m d (r, msgs @ [p]) =
      (r @ appended_text d, msgs @ [model_message m (r @ appended_text d)])"
    by (simp add: consume_chunk_def replace_last_snoc Let_def)
  with Cons.IH [of "r @ appended_text d" "model_message m (r @ appended_text d)"]
  show ?case by simp
qed

lemma stream_trace_placeholder:
  "stream_trace m chunks ([], msgs @ [p]) =
     map (\<lambda>k. msgs @ [model_message m (concat (map appended_text (take (Suc k) chunks)))])
       [0..<length chunks]"
  unfolding stream_trace_def
proof (rule map_cong [OF refl])
  fix k assume "k \<in> set [0..<length chunks]"
  then have "take (Suc k) chunks \<noteq> []" by auto
  then show "snd (fold (consume_chunk m) (take (Suc k) chunks) ([], msgs @ [p])) =
        msgs @ [model_message m (concat (map appended_text (take (Suc k) chunks)))]"
    by (simp add: fold_consume_chunk)
qed

lemma appended_text_Some: "map appended_text (map Some ds) = ds"
  by (induction ds) (simp_all add: appended_text_def)

text \<open>
  When every chunk carries a text: after the k-th chunk the messages are the earlier
  ones, untouched, followed by one model message whose content is the concatenation of
  the first k texts, so every chunk replaces the trailing message and none adds an
  entry. For the texts \<open>Hel\<close>, \<open>lo, \<close>, \<open>world\<close> the trailing contents are \<open>Hel\<close>,
  \<open>Hello, \<close>, \<open>Hello, world\<close>.
\<close>

lemma fold_consume_chunk_placeholder:
  "fold (consume_chunk m) chunks ([], msgs @ [model_message m []]) =
     (concat (map appended_text chunks),
      msgs @ [model_message m (concat (map appended_text chunks))])"
  by (simp add: fold_consume_chunk)

lemma streaming_of_texts:
  "stream_trace m (map Some ds) ([], msgs @ [model_message m []]) =
     map (\<lambda>k. msgs @ [model_message m (concat (take (Suc k) ds))]) [0..<length ds] \<and>
   fold (consume_chunk m) (map Some ds) ([], msgs @ [model_message m []]) =
     (concat ds, msgs @ [model_message m (concat ds)]) \<and>
   map (\<lambda>ms. content (last ms))
     (stream_trace m [Some (lit ''Hel''), Some (lit ''lo, ''), Some (lit ''world'')]
        ([], msgs @ [model_message m []])) =
     [lit ''Hel'', lit ''Hello, '', lit ''Hello, world'']"
proof -
  have a: "map appended_text (take k (map Some ds)) = take k ds" for k
    by (simp only: take_map appended_text_Some)
  have t: "stream_trace m (map Some ds) ([], msgs @ [model_message m []]) =
     map (\<lambda>k. msgs @ [model_message m (concat (take (Suc k) ds))]) [0..<length ds]"
    by (simp only: stream_trace_placeholder a length_map)
  have f: "fold (consume_chunk m) (map Some ds) ([], msgs @ [model_message m []]) =
     (concat ds, msgs @ [model_message m (concat ds)])"
    by (simp only: fold_consume_chunk_placeholder appended_text_Some)
  have e: "map (\<lambda>ms. content (last ms))
     (stream_trace m [Some (lit ''Hel''), Some (lit ''lo, ''), Some (lit ''world'')]
        ([], msgs @ [model_message m []])) =
     [lit ''Hel'', lit ''Hello, '', lit ''Hello, world'']"
    by (simp add: stream_trace_placeholder model_message_def appended_text_def lit_def
        upt_rec [of 0] upt_rec [of 1] upt_rec [of 2] upt_rec [of 3])
  from t f e show ?thesis by blast
qed

text \<open>
  Claim C2 fails on the code for a stream with a chunk that has no text. For the chunks
  with the texts \<open>Hel\<close>, none, \<open>lo\<close> the concatenation of the deltas is \<open>Hello\<close>, and the
  trailing contents are \<open>Hel\<close>, \<open>Helundefined\<close>, \<open>Helundefinedlo\<close>: the loop appends the
  string \<open>undefined\<close> for the chunk without text. The messages before the trailing one
  are untouched and no entry is added.
\<close>

theorem textless_chunk_appends_undefined:
  "stream_trace m [Some (lit ''Hel''), None, Some (lit ''lo'')] ([], msgs @ [model_message m []]) =
     [msgs @ [model_message m (lit ''Hel'')],
      msgs @ [model_message m (lit ''Helundefined'')],
      msgs @ [model_message m (lit ''Helundefinedlo'')]] \<and>
   lit ''Helundefinedlo'' \<noteq> lit ''Hello''"
  by (simp add: stream_trace_placeholder appended_text_def lit_def
      upt_rec [of 0] upt_rec [of 1] upt_rec [of 2] upt_rec [of 3])

text \<open>
  A submission whose contents are built and whose stream ends without an error: the
  transcript gains the user message and one model message with the whole reply.
\<close>

lemma handleSendMessage_streamed:
  assumes "history_map (drop 1 (messages app)) = Inr history"
    and "current_content prompt att fol = Inr current"
    and "t (selectedModel app) (history @ [current]) = Inr (chunks, None)"
  shows "handleSendMessage t prompt att fol app =
     app\<lparr>isLoading := False, error := None,
         messages := messages app @
           [\<lparr>role = USER, content = prompt, attachment = att, folder = fol, model = None\<rparr>,
            model_message (selectedModel app) (concat (map appended_text chunks))]\<rparr>"
  using assms
    fold_consume_chunk_placeholder [of "selectedModel app" chunks "messages app @
      [\<lparr>role = USER, content = prompt, attachment = att, folder = fol, model = None\<rparr>]"]
  by (simp add: handleSendMessage_def Let_def)

lemma fileToPart_error: "fileToPart url = Inl e \<Longrightarrow> e = Error (lit ''Invalid data URL'')"
  by (auto simp: fileToPart_def split: if_splits option.splits)

lemma history_content_error:
  "history_content msg = Inl e \<Longrightarrow> e = Error (lit ''Invalid data URL'')"
  by (auto simp: history_content_def Let_def split: if_splits sum.splits dest: fileToPart_error)

lemma history_map_error: "history_map msgs = Inl e \<Longrightarrow> e = Error (lit ''Invalid data URL'')"
  by (induction msgs) (auto split: sum.splits dest: history_content_error)

lemma current_content_failure:
  assumes "dataUrl a \<noteq> []" and "fileToPart (dataUrl a) = Inl e"
  shows "current_content prompt (Some a) fol = Inl (Error (lit ''Invalid data URL''))"
  using assms fileToPart_error [OF assms(2)] by (simp add: current_content_def Let_def)

lemma handleSendMessage_decode_failure:
  assumes "dataUrl a \<noteq> []" and "fileToPart (dataUrl a) = Inl e"
  shows "handleSendMessage t prompt (Some a) fol app =
     app\<lparr>isLoading := False,
         error := Some (lit ''Error: Invalid data URL''),
         messages := messages app @
           [\<lparr>role = USER, content = prompt, attachment = Some a, folder = fol, model = None\<rparr>,
            model_message (selectedModel app)
              (lit ''Sorry, I encountered an error. Please try again. Details: Invalid data URL'')]\<rparr>"
proof (cases "history_map (drop 1 (messages app))")
  case (Inl e')
  with history_map_error [OF Inl] show ?thesis
    by (simp add: handleSendMessage_def Let_def errorMessage_of_def lit_def)
next
  case (Inr history)
  with current_content_failure [OF assms, of prompt fol] show ?thesis
    by (simp add: handleSendMessage_def Let_def errorMessage_of_def lit_def)
qed

lemma fileToPart_empty_file: "fileToPart (dataUrl empty_file) = Inl (Error (lit ''Invalid data URL''))"
  by (simp add: empty_file_def fileToPart_def startsWith_def find_last_def lit_def)

lemma dataUrl_empty_file: "dataUrl empty_file \<noteq> []"
  by (simp add: empty_file_def lit_def)

text \<open>
  Claim C9, amended. When the data URL of the attachment of a submission does not
  decode, the transport is not called (the outcome is the same for every transport): the
  user message stays in the transcript, followed by a model message that carries the
  error detail; the error is set and loading is over; and the composer is cleared, as
  after every submission.
\<close>

theorem decode_failure_aborts_submission:
  assumes "\<not> isLoading app" and "fileData ci = Some a" and "dataUrl a \<noteq> []"
    and "fileToPart (dataUrl a) = Inl e"
  shows "performSubmit t (app, ci) =
     (app\<lparr>isLoading := False,
          error := Some (lit ''Error: Invalid data URL''),
          messages := messages app @
            [\<lparr>role = USER, content = trim (input ci), attachment = Some a,
              folder = folderData ci, model = None\<rparr>,
             model_message (selectedModel app)
               (lit ''Sorry, I encountered an error. Please try again. Details: Invalid data URL'')]\<rparr>,
      ci\<lparr>input := [], fileData := None, folderData := None, input_error := None\<rparr>) \<and>
     performSubmit t (app, ci) = performSubmit t' (app, ci)"
  using assms(1,2) handleSendMessage_decode_failure [OF assms(3,4)]
  by (simp add: performSubmit_def)

theorem decode_failure_aborts_submission_witness:
  "\<not> isLoading app_idle \<and> fileData composer_filled = Some empty_file \<and>
   dataUrl empty_file \<noteq> [] \<and>
   fileToPart (dataUrl empty_file) = Inl (Error (lit ''Invalid data URL'')) \<and>
   performSubmit transport_ok (app_idle, composer_filled) =
     (app_idle\<lparr>isLoading := False,
          error := Some (lit ''Error: Invalid data URL''),
          messages := messages app_idle @
            [\<lparr>role = USER, content = trim (input composer_filled), attachment = Some empty_file,
              folder = folderData composer_filled, model = None\<rparr>,
             model_message (selectedModel app_idle)
               (lit ''Sorry, I encountered an error. Please try again. Details: Invalid data URL'')]\<rparr>,
      composer_filled\<lparr>input := [], fileData := None, folderData := None, input_error := None\<rparr>)"
proof -
  have l: "\<not> isLoading app_idle" by (simp add: app_idle_def)
  have f: "fileData composer_filled = Some empty_file" by (simp add: composer_filled_def)
  from decode_failure_aborts_submission [OF l f dataUrl_empty_file fileToPart_empty_file,
      of transport_ok transport_ok]
    l f dataUrl_empty_file fileToPart_empty_file
  show ?thesis by blast
qed

text \<open>
  Claim C9, as stated, fails: after the failed submission the composer is empty, not in
  its state before the submission, and the transcript has grown by the user message and
  by a message of the model's role.
\<close>

theorem decode_failure_clears_composer:
  "snd (performSubmit transport_ok (app_idle, composer_filled)) \<noteq> composer_filled \<and>
   input (snd (performSubmit transport_ok (app_idle, composer_filled))) = [] \<and>
   fileData (snd (performSubmit transport_ok (app_idle, composer_filled))) = None \<and>
   length (messages (fst (performSubmit transport_ok (app_idle, composer_filled)))) =
     length (messages app_idle) + 2 \<and>
   role (last (messages (fst (performSubmit transport_ok (app_idle, composer_filled))))) = MODEL"
proof -
  have l: "\<not> isLoading app_idle" by (simp add: app_idle_def)
  have f: "fileData composer_filled = Some empty_file" by (simp add: composer_filled_def)
  have p: "performSubmit transport_ok (app_idle, composer_filled) =
     (handleSendMessage transport_ok (trim (input composer_filled)) (Some empty_file)
        (folderData composer_filled) app_idle,
      composer_filled\<lparr>input := [], fileData := None, folderData := None, input_error := None\<rparr>)"
    using l f by (simp add: performSubmit_def)
  have i: "input composer_filled \<noteq> []" by (simp add: composer_filled_def lit_def)
  then have "composer_filled\<lparr>input := [], fileData := None, folderData := None, input_error := None\<rparr>
        \<noteq> composer_filled"
    by (metis ChatInput.select_convs(1) ChatInput.surjective ChatInput.update_convs(1,2,3,4))
  then show ?thesis
    by (simp add: p handleSendMessage_decode_failure [OF dataUrl_empty_file fileToPart_empty_file]
        model_message_def)
qed

text \<open>
  The user message of the failed submission stays in the transcript with its attachment,
  and every later submission decodes it again for the history: it fails the same way,
  whatever it attaches.
\<close>

lemma history_map_fails:
  "msg \<in> set msgs \<Longrightarrow> history_content msg = Inl e \<Longrightarrow> \<exists>e'. history_map msgs = Inl e'"
  by (induction msgs) (auto split: sum.splits)

lemma history_keeps_failing:
  assumes "msg \<in> set (drop 1 (messages app))" and "attachment msg = Some a"
    and "dataUrl a \<noteq> []" and "fileToPart (dataUrl a) = Inl e"
  shows "error (handleSendMessage t prompt att fol app) = Some (lit ''Error: Invalid data URL'')"
proof -
  from assms(2-4) have "history_content msg = Inl e"
    by (simp add: history_content_def Let_def)
  with assms(1) have "\<exists>e'. history_map (drop 1 (messages app)) = Inl e'"
    by (rule history_map_fails)
  then obtain e' where h: "history_map (drop 1 (messages app)) = Inl e'" by blast
  with history_map_error [OF h] show ?thesis
    by (simp add: handleSendMessage_def Let_def errorMessage_of_def lit_def)
qed

end
